theory Spec2Isabelle
  imports Main "HOL-Library.Word"
begin

unbundle bit_operations_syntax

section \<open>The enclave UART driver: data model\<close>

text \<open>
  A shallow embedding of \<^verbatim>\<open>sysdrv/drv_ko/bhe-enclave/bhe-enclave.c\<close>: the serdev receive
  callback \<^verbatim>\<open>uart_receive_buf\<close> (frame accumulator, deframer and packet dispatcher), the
  outbound ring \<^verbatim>\<open>uart_buffer\<close> with its cursors, and the character device entry points
  \<^verbatim>\<open>uart_misc_read\<close> and \<^verbatim>\<open>uart_misc_write\<close>.
\<close>

type_synonym byte = "8 word"

definition PACKET_SIGNATURE :: "32 word" where
  "PACKET_SIGNATURE = 0xBADF00D"

definition BUF_SIZE :: nat where
  "BUF_SIZE = 2048"

definition RX_BUFFER_SIZE :: nat where
  "RX_BUFFER_SIZE = 2048"

definition HEADER_SIZE :: nat where
  "HEADER_SIZE = 8"

text \<open>The errno values the entry points return (negated).\<close>

definition EAGAIN :: int where
  "EAGAIN = 11"

definition ENOMEM :: int where
  "ENOMEM = 12"

definition EFAULT :: int where
  "EFAULT = 14"

definition ERESTARTSYS :: int where
  "ERESTARTSYS = 512"

text \<open>Every \<^verbatim>\<open>printk\<close> of the modelled functions, as one constructor per message.\<close>

datatype printk =
    Invalid_receive_buf_parameters
  | Receive_buffer_overflow
  | Invalid_packet_signature
  | State_Update_Packet_Received
  | Root_State byte
  | Version byte
  | State_Update_payload_too_small
  | Unhandled_packet_type "16 word"
  | UART_buffer_overflow

text \<open>
  The module's global variables. \<open>uart_buffer\<close> is the whole array of \<open>BUF_SIZE\<close> bytes,
  with \<open>buffer_head\<close> and \<open>buffer_tail\<close> as in the source. \<open>rx_buffer\<close> holds the bytes
  \<^verbatim>\<open>rx_buffer[0 .. rx_buffer_pos)\<close>: the source never reads a byte of the array at or
  beyond \<^verbatim>\<open>rx_buffer_pos\<close>, so the counter is the length of the list. \<open>klog\<close> is the kernel
  log the \<^verbatim>\<open>printk\<close> calls write to. \<open>dispatched\<close> is a history variable, not a variable of
  the source: it records the packet type and the payload each time control reaches the
  dispatch code (\<^verbatim>\<open>payload = &rx_buffer[HEADER_SIZE]\<close>).
\<close>

record enclave_state =
  uart_buffer :: "byte list"
  buffer_head :: nat
  buffer_tail :: nat
  rx_buffer :: "byte list"
  root_state :: byte
  version :: byte
  klog :: "printk list"
  dispatched :: "(16 word \<times> byte list) list"

abbreviation rx_buffer_pos :: "enclave_state \<Rightarrow> nat" where
  "rx_buffer_pos s \<equiv> length (rx_buffer s)"

definition initial_state :: enclave_state where
  "initial_state = \<lparr> uart_buffer = replicate BUF_SIZE 0, buffer_head = 0, buffer_tail = 0,
     rx_buffer = [], root_state = 0, version = 0, klog = [], dispatched = [] \<rparr>"

section \<open>Reading the header\<close>

text \<open>
  \<^verbatim>\<open>le32_to_cpu(*(uint32_t *)p)\<close> and \<^verbatim>\<open>le16_to_cpu(*(uint16_t *)p)\<close>: the bytes at \<open>p\<close>,
  least significant first.
\<close>

definition le32_to_cpu :: "byte \<Rightarrow> byte \<Rightarrow> byte \<Rightarrow> byte \<Rightarrow> 32 word" where
  "le32_to_cpu b0 b1 b2 b3 =
     ucast b0 OR push_bit 8 (ucast b1) OR push_bit 16 (ucast b2) OR push_bit 24 (ucast b3)"

definition le16_to_cpu :: "byte \<Rightarrow> byte \<Rightarrow> 16 word" where
  "le16_to_cpu b0 b1 = ucast b0 OR push_bit 8 (ucast b1)"

definition read_le32 :: "byte list \<Rightarrow> nat \<Rightarrow> 32 word" where
  "read_le32 buf off = le32_to_cpu (buf ! off) (buf ! (off + 1)) (buf ! (off + 2)) (buf ! (off + 3))"

definition read_le16 :: "byte list \<Rightarrow> nat \<Rightarrow> 16 word" where
  "read_le16 buf off = le16_to_cpu (buf ! off) (buf ! (off + 1))"

section \<open>The outbound ring\<close>

text \<open>
  One iteration of the producer loop of \<^verbatim>\<open>uart_receive_buf\<close>: store at \<open>buffer_head\<close>,
  advance it, and when it has caught up with \<open>buffer_tail\<close> advance that too.
\<close>

definition enqueue_byte :: "byte \<Rightarrow> enclave_state \<Rightarrow> enclave_state" where
  "enqueue_byte b s =
     (let s1 = s\<lparr>uart_buffer := (uart_buffer s)[buffer_head s := b]\<rparr>;
          s2 = s1\<lparr>buffer_head := (buffer_head s1 + 1) mod BUF_SIZE\<rparr>
      in if buffer_head s2 = buffer_tail s2
         then s2\<lparr>klog := klog s2 @ [UART_buffer_overflow],
                 buffer_tail := (buffer_tail s2 + 1) mod BUF_SIZE\<rparr>
         else s2)"

text \<open>The producer loop \<^verbatim>\<open>for (i = 0; i < n; i++)\<close> over the bytes it copies.\<close>

definition enqueue :: "byte list \<Rightarrow> enclave_state \<Rightarrow> enclave_state" where
  "enqueue bs s = fold enqueue_byte bs s"

text \<open>One iteration of the consumer loop of \<^verbatim>\<open>uart_misc_read\<close>, after \<^verbatim>\<open>put_user\<close> succeeded.\<close>

definition dequeue_byte :: "enclave_state \<Rightarrow> byte \<times> enclave_state" where
  "dequeue_byte s =
     (uart_buffer s ! buffer_tail s, s\<lparr>buffer_tail := (buffer_tail s + 1) mod BUF_SIZE\<rparr>)"

section \<open>The receive path\<close>

text \<open>
  The dispatch code of the loop body: the state update packet \<open>0x0004\<close> sets the two mirror
  bytes when its payload has at least two bytes; every other type is copied whole, header
  and payload, into the outbound ring.
\<close>

definition dispatch :: "16 word \<Rightarrow> nat \<Rightarrow> enclave_state \<Rightarrow> enclave_state" where
  "dispatch packet_type payload_size s =
     (let payload = drop HEADER_SIZE (rx_buffer s);
          s0 = s\<lparr>dispatched := dispatched s @ [(packet_type, take payload_size payload)]\<rparr>
      in if packet_type = 0x0004 then
           (if payload_size \<ge> 2 then
              s0\<lparr>root_state := payload ! 0, version := payload ! 1,
                 klog := klog s0 @ [State_Update_Packet_Received,
                                    Root_State (payload ! 0), Version (payload ! 1)]\<rparr>
            else s0\<lparr>klog := klog s0 @ [State_Update_payload_too_small]\<rparr>)
         else
           enqueue (take (HEADER_SIZE + payload_size) (rx_buffer s))
             (s0\<lparr>klog := klog s0 @ [Unhandled_packet_type packet_type]\<rparr>))"

text \<open>
  The loop \<^verbatim>\<open>while (rx_buffer_pos >= HEADER_SIZE)\<close>. The two \<^verbatim>\<open>memmove\<close> calls shift the
  staged bytes left by one and by the frame size.
\<close>

function deframe :: "enclave_state \<Rightarrow> enclave_state" where
  "deframe s =
     (if rx_buffer_pos s \<ge> HEADER_SIZE then
        (if read_le32 (rx_buffer s) 0 \<noteq> PACKET_SIGNATURE then
           deframe (s\<lparr>klog := klog s @ [Invalid_packet_signature],
                      rx_buffer := drop 1 (rx_buffer s)\<rparr>)
         else if rx_buffer_pos s < HEADER_SIZE + unat (read_le16 (rx_buffer s) 6) then s
         else
           deframe ((dispatch (read_le16 (rx_buffer s) 4) (unat (read_le16 (rx_buffer s) 6)) s)
                      \<lparr>rx_buffer := drop (HEADER_SIZE + unat (read_le16 (rx_buffer s) 6))
                                         (rx_buffer s)\<rparr>))
      else s)"
  by pat_completeness auto
termination
  by (relation "measure (\<lambda>s. rx_buffer_pos s)") (auto simp: HEADER_SIZE_def)

declare deframe.simps [simp del]

text \<open>
  \<^verbatim>\<open>uart_receive_buf(serdev, data, count)\<close>, with \<open>data\<close> the \<open>count\<close> bytes passed. An empty
  chunk takes the first early return (as a null \<open>data\<close> does); a chunk that does not fit
  resets the staging buffer and returns 0; otherwise the chunk is appended, the loop runs,
  and \<open>count\<close> is returned. \<open>count\<close> is the size of a buffer in memory, so the sum
  \<^verbatim>\<open>rx_buffer_pos + count\<close> stays far below the range of \<^verbatim>\<open>size_t\<close> and is a sum of
  natural numbers.
\<close>

definition uart_receive_buf :: "byte list \<Rightarrow> enclave_state \<Rightarrow> int \<times> enclave_state" where
  "uart_receive_buf data s =
     (if length data = 0 then (0, s\<lparr>klog := klog s @ [Invalid_receive_buf_parameters]\<rparr>)
      else if rx_buffer_pos s + length data > RX_BUFFER_SIZE then
        (0, s\<lparr>klog := klog s @ [Receive_buffer_overflow], rx_buffer := []\<rparr>)
      else (int (length data), deframe (s\<lparr>rx_buffer := rx_buffer s @ data\<rparr>)))"

text \<open>A sequence of receive callbacks, one per chunk, in order.\<close>

fun feed_all :: "byte list list \<Rightarrow> enclave_state \<Rightarrow> enclave_state" where
  "feed_all [] s = s"
| "feed_all (c # cs) s = feed_all cs (snd (uart_receive_buf c s))"

text \<open>No call of the sequence takes the overflow return.\<close>

fun feeds_fit :: "byte list list \<Rightarrow> enclave_state \<Rightarrow> bool" where
  "feeds_fit [] s = True"
| "feeds_fit (c # cs) s =
     (rx_buffer_pos s + length c \<le> RX_BUFFER_SIZE \<and> feeds_fit cs (snd (uart_receive_buf c s)))"

section \<open>The character device\<close>

text \<open>
  \<^verbatim>\<open>wait_event_interruptible(uart_wait_queue, buffer_head != buffer_tail)\<close>, as seen by the
  sleeping reader: \<open>arrivals\<close> are the chunks the receive callback handles while the reader
  sleeps. The macro returns 0 once the condition holds; when the arrivals leave the ring
  empty, the sleep can only end by a signal, and the macro returns \<open>-ERESTARTSYS\<close>.
\<close>

definition wait_event_interruptible :: "byte list list \<Rightarrow> enclave_state \<Rightarrow> int \<times> enclave_state" where
  "wait_event_interruptible arrivals s =
     (let s' = feed_all arrivals s
      in if buffer_head s' \<noteq> buffer_tail s' then (0, s') else (- ERESTARTSYS, s'))"

text \<open>
  The copy loop of \<^verbatim>\<open>uart_misc_read\<close>. \<open>put_user_ok i\<close> tells whether \<^verbatim>\<open>put_user\<close> to
  \<^verbatim>\<open>&buf[i]\<close> succeeds; \<open>buf\<close> collects the bytes stored in the caller's buffer. The result
  is the return value, the bytes stored, and the state.
\<close>

function read_loop ::
  "(nat \<Rightarrow> bool) \<Rightarrow> nat \<Rightarrow> nat \<Rightarrow> byte list \<Rightarrow> enclave_state \<Rightarrow> int \<times> byte list \<times> enclave_state" where
  "read_loop put_user_ok count bytes_read buf s =
     (if buffer_head s \<noteq> buffer_tail s \<and> bytes_read < count then
        (if \<not> put_user_ok bytes_read then (- EFAULT, buf, s)
         else read_loop put_user_ok count (bytes_read + 1) (buf @ [fst (dequeue_byte s)])
                (snd (dequeue_byte s)))
      else (int bytes_read, buf, s))"
  by pat_completeness auto
termination
  by (relation "measure (\<lambda>(ok, count, bytes_read, buf, s). count - bytes_read)") auto

declare read_loop.simps [simp del]

text \<open>
  \<^verbatim>\<open>uart_misc_read(file, buf, count, ppos)\<close>; \<open>nonblock\<close> is \<^verbatim>\<open>file->f_flags & O_NONBLOCK\<close>.
  The value of \<^verbatim>\<open>wait_event_interruptible\<close> is not used by the source.
\<close>

definition uart_misc_read ::
  "bool \<Rightarrow> nat \<Rightarrow> (nat \<Rightarrow> bool) \<Rightarrow> byte list list \<Rightarrow> enclave_state \<Rightarrow> int \<times> byte list \<times> enclave_state" where
  "uart_misc_read nonblock count put_user_ok arrivals s =
     (if buffer_head s = buffer_tail s then
        (if nonblock then (- EAGAIN, [], s)
         else read_loop put_user_ok count 0 [] (snd (wait_event_interruptible arrivals s)))
      else read_loop put_user_ok count 0 [] s)"

text \<open>
  \<^verbatim>\<open>uart_misc_write(file, buf, count, ppos)\<close>, with \<open>buf\<close> the \<open>count\<close> bytes of the caller.
  \<open>serdev_device_write_buf\<close> is the transport's send primitive, \<open>kmalloc_ok\<close> and
  \<open>copy_ok\<close> tell whether \<^verbatim>\<open>kmalloc\<close> and \<^verbatim>\<open>copy_from_user\<close> succeed. The result is the
  return value and the buffers passed to the transport, one per call of the primitive.
\<close>

definition uart_misc_write ::
  "(byte list \<Rightarrow> int) \<Rightarrow> bool \<Rightarrow> bool \<Rightarrow> byte list \<Rightarrow> int \<times> byte list list" where
  "uart_misc_write serdev_device_write_buf kmalloc_ok copy_ok buf =
     (let count = length buf
      in if count = 0 then (0, [])
         else if count > 128 \<and> \<not> kmalloc_ok then (- ENOMEM, [])
         else if \<not> copy_ok then (- EFAULT, [])
         else (let ret = serdev_device_write_buf buf
               in (if ret < 0 then ret else int count, [buf])))"

text \<open>A transport that reports \<open>r\<close> for every buffer it is given.\<close>

definition transport_reporting :: "int \<Rightarrow> byte list \<Rightarrow> int" where
  "transport_reporting r buf = r"

text \<open>A caller's buffer of which the first \<open>n\<close> bytes can be written.\<close>

definition user_buffer_writable :: "nat \<Rightarrow> nat \<Rightarrow> bool" where
  "user_buffer_writable n i = (i < n)"

text \<open>
  The sysfs attributes: \<^verbatim>\<open>scnprintf(buf, PAGE_SIZE, "%u\n", x)\<close> for a byte \<open>x\<close>, at most
  four characters.
\<close>

definition digit_char :: "nat \<Rightarrow> char" where
  "digit_char d = ''0123456789'' ! d"

function fmt_u :: "nat \<Rightarrow> string" where
  "fmt_u n = (if n < 10 then [digit_char n] else fmt_u (n div 10) @ [digit_char (n mod 10)])"
  by pat_completeness auto
termination
  by (relation "measure (\<lambda>n. n)") auto

declare fmt_u.simps [simp del]

definition root_state_show :: "enclave_state \<Rightarrow> string" where
  "root_state_show s = fmt_u (unat (root_state s)) @ [CHR 0x0A]"

definition version_show :: "enclave_state \<Rightarrow> string" where
  "version_show s = fmt_u (unat (version s)) @ [CHR 0x0A]"

section \<open>Frames on the wire\<close>

text \<open>
  The sender is not part of the driver. A well-formed frame is the byte string the receive
  loop accepts as one packet: the four signature bytes, the type and the payload length,
  each least significant byte first, then the payload. The length field has 16 bits.
\<close>

definition put_le16 :: "16 word \<Rightarrow> byte list" where
  "put_le16 w = [ucast w, ucast (drop_bit 8 w)]"

definition frame :: "16 word \<times> byte list \<Rightarrow> byte list" where
  "frame pkt = [0x0D, 0xF0, 0xAD, 0x0B] @ put_le16 (fst pkt)
                 @ put_le16 (word_of_nat (length (snd pkt))) @ snd pkt"

definition well_formed :: "16 word \<times> byte list \<Rightarrow> bool" where
  "well_formed pkt = (length (snd pkt) < 65536)"

text \<open>Garbage: no four consecutive bytes read as the signature.\<close>

fun sig_free :: "byte list \<Rightarrow> bool" where
  "sig_free (a # b # c # d # xs) =
     (le32_to_cpu a b c d \<noteq> PACKET_SIGNATURE \<and> sig_free (b # c # d # xs))"
| "sig_free xs = True"

section \<open>Abstractions used in the proofs\<close>

text \<open>The cursors are indices of the array.\<close>

definition ring_inv :: "enclave_state \<Rightarrow> bool" where
  "ring_inv s = (length (uart_buffer s) = BUF_SIZE \<and> buffer_head s < BUF_SIZE
                 \<and> buffer_tail s < BUF_SIZE)"

text \<open>The unread bytes of the ring: from \<open>buffer_tail\<close> up to \<open>buffer_head\<close>, wrapping.\<close>

definition ring_contents :: "enclave_state \<Rightarrow> byte list" where
  "ring_contents s =
     map (\<lambda>i. uart_buffer s ! ((buffer_tail s + i) mod BUF_SIZE))
       [0 ..< (buffer_head s + BUF_SIZE - buffer_tail s) mod BUF_SIZE]"

text \<open>
  What the loop of \<open>deframe\<close> does to the staged bytes alone: the packets it hands to the
  dispatch code, and the bytes it leaves staged.
\<close>

function deframe_bytes :: "byte list \<Rightarrow> (16 word \<times> byte list) list \<times> byte list" where
  "deframe_bytes b =
     (if length b \<ge> HEADER_SIZE then
        (if read_le32 b 0 \<noteq> PACKET_SIGNATURE then deframe_bytes (drop 1 b)
         else if length b < HEADER_SIZE + unat (read_le16 b 6) then ([], b)
         else (let r = deframe_bytes (drop (HEADER_SIZE + unat (read_le16 b 6)) b)
               in ((read_le16 b 4, take (unat (read_le16 b 6)) (drop HEADER_SIZE b)) # fst r,
                   snd r)))
      else ([], b))"
  by pat_completeness auto
termination
  by (relation "measure length") (auto simp: HEADER_SIZE_def)

declare deframe_bytes.simps [simp del]

section \<open>Header fields and frames\<close>

lemma le16_roundtrip: "le16_to_cpu (ucast w) (ucast (drop_bit 8 w)) = (w :: 16 word)"
  unfolding le16_to_cpu_def
  by (rule bit_word_eqI) (auto simp: bit_simps)

lemma le32_signature_bytes:
  "le32_to_cpu a b c d = PACKET_SIGNATURE \<longleftrightarrow> a = 0x0D \<and> b = 0xF0 \<and> c = 0xAD \<and> d = 0x0B"
proof
  assume h: "le32_to_cpu a b c d = PACKET_SIGNATURE"
  have a: "ucast (le32_to_cpu a b c d) = a"
    unfolding le32_to_cpu_def by (rule bit_word_eqI) (auto simp: bit_simps)
  have b: "ucast (drop_bit 8 (le32_to_cpu a b c d)) = b"
    unfolding le32_to_cpu_def
    by (rule bit_word_eqI) (auto simp: bit_simps dest: bit_imp_le_length)
  have c: "ucast (drop_bit 16 (le32_to_cpu a b c d)) = c"
    unfolding le32_to_cpu_def
    by (rule bit_word_eqI) (auto simp: bit_simps dest: bit_imp_le_length)
  have d: "ucast (drop_bit 24 (le32_to_cpu a b c d)) = d"
    unfolding le32_to_cpu_def
    by (rule bit_word_eqI) (auto simp: bit_simps dest: bit_imp_le_length)
  show "a = 0x0D \<and> b = 0xF0 \<and> c = 0xAD \<and> d = 0x0B"
    using a b c d unfolding h PACKET_SIGNATURE_def by simp
next
  assume "a = 0x0D \<and> b = 0xF0 \<and> c = 0xAD \<and> d = 0x0B"
  then show "le32_to_cpu a b c d = PACKET_SIGNATURE"
    by (simp add: le32_to_cpu_def PACKET_SIGNATURE_def)
qed

lemma frame_length: "length (frame pkt) = 8 + length (snd pkt)"
  by (simp add: frame_def put_le16_def)

lemma frame_sig: "read_le32 (frame pkt @ r) 0 = PACKET_SIGNATURE"
  by (simp add: frame_def read_le32_def le32_signature_bytes)

lemma frame_type: "read_le16 (frame pkt @ r) 4 = fst pkt"
  by (simp add: frame_def read_le16_def put_le16_def le16_roundtrip)

lemma frame_len:
  "well_formed pkt \<Longrightarrow> unat (read_le16 (frame pkt @ r) 6) = length (snd pkt)"
  by (simp add: frame_def read_le16_def put_le16_def le16_roundtrip well_formed_def unat_of_nat)

lemma frame_payload: "drop 8 (frame pkt @ r) = snd pkt @ r"
  by (simp add: frame_def put_le16_def)

lemma deframe_short: "rx_buffer_pos s < HEADER_SIZE \<Longrightarrow> deframe s = s"
  by (subst deframe.simps) simp

lemma deframe_resync:
  "HEADER_SIZE \<le> rx_buffer_pos s \<Longrightarrow> read_le32 (rx_buffer s) 0 \<noteq> PACKET_SIGNATURE \<Longrightarrow>
   deframe s = deframe (s\<lparr>klog := klog s @ [Invalid_packet_signature],
                           rx_buffer := drop 1 (rx_buffer s)\<rparr>)"
  by (subst deframe.simps) simp

lemma deframe_wait:
  "HEADER_SIZE \<le> rx_buffer_pos s \<Longrightarrow> read_le32 (rx_buffer s) 0 = PACKET_SIGNATURE \<Longrightarrow>
   rx_buffer_pos s < HEADER_SIZE + unat (read_le16 (rx_buffer s) 6) \<Longrightarrow> deframe s = s"
  by (subst deframe.simps) simp

lemma deframe_frame:
  "read_le32 (rx_buffer s) 0 = PACKET_SIGNATURE \<Longrightarrow>
   HEADER_SIZE + unat (read_le16 (rx_buffer s) 6) \<le> rx_buffer_pos s \<Longrightarrow>
   deframe s =
     deframe ((dispatch (read_le16 (rx_buffer s) 4) (unat (read_le16 (rx_buffer s) 6)) s)
                \<lparr>rx_buffer := drop (HEADER_SIZE + unat (read_le16 (rx_buffer s) 6)) (rx_buffer s)\<rparr>)"
  by (subst deframe.simps) simp

section \<open>The deframer on the staged bytes\<close>

text \<open>
  The dispatch code leaves the staging buffer alone, so the packets the loop hands over and
  the bytes it leaves staged depend on the staged bytes only.
\<close>

lemma enqueue_byte_other [simp]:
  "rx_buffer (enqueue_byte b s) = rx_buffer s"
  "dispatched (enqueue_byte b s) = dispatched s"
  "root_state (enqueue_byte b s) = root_state s"
  "version (enqueue_byte b s) = version s"
  by (simp_all add: enqueue_byte_def Let_def)

lemma enqueue_other [simp]:
  "rx_buffer (enqueue bs s) = rx_buffer s"
  "dispatched (enqueue bs s) = dispatched s"
  "root_state (enqueue bs s) = root_state s"
  "version (enqueue bs s) = version s"
  unfolding enqueue_def by (induction bs arbitrary: s; simp)+

lemma dispatch_rx_buffer [simp]: "rx_buffer (dispatch t n s) = rx_buffer s"
  by (simp add: dispatch_def Let_def)

lemma dispatch_dispatched [simp]:
  "dispatched (dispatch t n s) = dispatched s @ [(t, take n (drop HEADER_SIZE (rx_buffer s)))]"
  by (simp add: dispatch_def Let_def)

lemma deframe_bytes_short: "length b < HEADER_SIZE \<Longrightarrow> deframe_bytes b = ([], b)"
  by (subst deframe_bytes.simps) simp

lemma deframe_bytes_resync:
  "HEADER_SIZE \<le> length b \<Longrightarrow> read_le32 b 0 \<noteq> PACKET_SIGNATURE \<Longrightarrow>
   deframe_bytes b = deframe_bytes (drop 1 b)"
  by (subst deframe_bytes.simps) simp

lemma deframe_bytes_wait:
  "HEADER_SIZE \<le> length b \<Longrightarrow> read_le32 b 0 = PACKET_SIGNATURE \<Longrightarrow>
   length b < HEADER_SIZE + unat (read_le16 b 6) \<Longrightarrow> deframe_bytes b = ([], b)"
  by (subst deframe_bytes.simps) simp

lemma deframe_bytes_frame:
  "read_le32 b 0 = PACKET_SIGNATURE \<Longrightarrow> HEADER_SIZE + unat (read_le16 b 6) \<le> length b \<Longrightarrow>
   deframe_bytes b =
     ((read_le16 b 4, take (unat (read_le16 b 6)) (drop HEADER_SIZE b))
        # fst (deframe_bytes (drop (HEADER_SIZE + unat (read_le16 b 6)) b)),
      snd (deframe_bytes (drop (HEADER_SIZE + unat (read_le16 b 6)) b)))"
  by (subst deframe_bytes.simps) (simp add: Let_def)

lemma deframe_projection:
  "dispatched (deframe s) = dispatched s @ fst (deframe_bytes (rx_buffer s))
   \<and> rx_buffer (deframe s) = snd (deframe_bytes (rx_buffer s))"
proof (induction s rule: deframe.induct)
  case (1 s)
  show ?case
  proof (cases "HEADER_SIZE \<le> rx_buffer_pos s")
    case False
    then show ?thesis by (simp add: deframe_short deframe_bytes_short)
  next
    case long: True
    show ?thesis
    proof (cases "read_le32 (rx_buffer s) 0 = PACKET_SIGNATURE")
      case False
      with long "1.IH"(1) show ?thesis
        by (simp add: deframe_resync deframe_bytes_resync)
    next
      case sig: True
      show ?thesis
      proof (cases "rx_buffer_pos s < HEADER_SIZE + unat (read_le16 (rx_buffer s) 6)")
        case True
        with long sig show ?thesis by (simp add: deframe_wait deframe_bytes_wait)
      next
        case False
        with long sig "1.IH"(2) show ?thesis
          by (simp add: deframe_frame deframe_bytes_frame)
      qed
    qed
  qed
qed

lemma read_le32_append: "4 \<le> length b \<Longrightarrow> read_le32 (b @ m) 0 = read_le32 b 0"
  by (auto simp: read_le32_def nth_append)

lemma read_le16_append: "off + 2 \<le> length b \<Longrightarrow> read_le16 (b @ m) off = read_le16 b off"
  by (auto simp: read_le16_def nth_append)

lemma deframe_bytes_append:
  "deframe_bytes (b @ m) =
     (fst (deframe_bytes b) @ fst (deframe_bytes (snd (deframe_bytes b) @ m)),
      snd (deframe_bytes (snd (deframe_bytes b) @ m)))"
proof (induction b rule: deframe_bytes.induct)
  case (1 b)
  show ?case
  proof (cases "HEADER_SIZE \<le> length b")
    case False
    then show ?thesis by (simp add: deframe_bytes_short)
  next
    case long: True
    then have l4: "4 \<le> length b" and l6: "6 + 2 \<le> length b" and l4': "4 + 2 \<le> length b"
      by (simp_all add: HEADER_SIZE_def)
    show ?thesis
    proof (cases "read_le32 b 0 = PACKET_SIGNATURE")
      case False
      have "deframe_bytes (b @ m) = deframe_bytes (drop 1 b @ m)"
        using long False l4 by (subst deframe_bytes_resync) (simp_all add: read_le32_append HEADER_SIZE_def)
      also have "\<dots> = (fst (deframe_bytes (drop 1 b)) @ fst (deframe_bytes (snd (deframe_bytes (drop 1 b)) @ m)),
            snd (deframe_bytes (snd (deframe_bytes (drop 1 b)) @ m)))"
        using "1.IH"(1) long False by simp
      finally show ?thesis using long False by (simp add: deframe_bytes_resync)
    next
      case sig: True
      show ?thesis
      proof (cases "length b < HEADER_SIZE + unat (read_le16 b 6)")
        case True
        with long sig show ?thesis by (simp add: deframe_bytes_wait)
      next
        case False
        let ?n = "unat (read_le16 b 6)"
        have full: "HEADER_SIZE + ?n \<le> length b" using False by simp
        have sig': "read_le32 (b @ m) 0 = PACKET_SIGNATURE"
          using sig l4 by (simp add: read_le32_append)
        have len': "read_le16 (b @ m) 6 = read_le16 b 6" and ty': "read_le16 (b @ m) 4 = read_le16 b 4"
          using l6 l4' by (simp_all add: read_le16_append)
        have "deframe_bytes (b @ m) =
            ((read_le16 b 4, take ?n (drop HEADER_SIZE b))
               # fst (deframe_bytes (drop (HEADER_SIZE + ?n) b @ m)),
             snd (deframe_bytes (drop (HEADER_SIZE + ?n) b @ m)))"
          using full sig' by (subst deframe_bytes_frame) (simp_all add: len' ty')
        moreover have "deframe_bytes (drop (HEADER_SIZE + ?n) b @ m) =
            (fst (deframe_bytes (drop (HEADER_SIZE + ?n) b))
               @ fst (deframe_bytes (snd (deframe_bytes (drop (HEADER_SIZE + ?n) b)) @ m)),
             snd (deframe_bytes (snd (deframe_bytes (drop (HEADER_SIZE + ?n) b)) @ m)))"
          using "1.IH"(2) long sig False by simp
        ultimately show ?thesis using full sig by (simp add: deframe_bytes_frame)
      qed
    qed
  qed
qed

lemma deframe_bytes_settled:
  "deframe_bytes (snd (deframe_bytes b)) = ([], snd (deframe_bytes b))"
  using deframe_bytes_append [of b "[]"] by (simp add: prod_eq_iff)

lemma deframe_bytes_length: "length (snd (deframe_bytes b)) \<le> length b"
proof (induction b rule: deframe_bytes.induct)
  case (1 b)
  show ?case
  proof (cases "HEADER_SIZE \<le> length b")
    case False
    then show ?thesis by (simp add: deframe_bytes_short)
  next
    case long: True
    show ?thesis
    proof (cases "read_le32 b 0 = PACKET_SIGNATURE")
      case False
      with long "1.IH"(1) show ?thesis by (simp add: deframe_bytes_resync)
    next
      case sig: True
      show ?thesis
      proof (cases "length b < HEADER_SIZE + unat (read_le16 b 6)")
        case True
        with long sig show ?thesis by (simp add: deframe_bytes_wait)
      next
        case False
        with long sig "1.IH"(2) show ?thesis by (simp add: deframe_bytes_frame)
      qed
    qed
  qed
qed

lemma receive_projection:
  assumes "deframe_bytes (rx_buffer s) = ([], rx_buffer s)"
    and "rx_buffer_pos s + length c \<le> RX_BUFFER_SIZE"
  shows "dispatched (snd (uart_receive_buf c s))
           = dispatched s @ fst (deframe_bytes (rx_buffer s @ c))
         \<and> rx_buffer (snd (uart_receive_buf c s)) = snd (deframe_bytes (rx_buffer s @ c))"
  using assms by (simp add: uart_receive_buf_def deframe_projection)

lemma feed_all_projection:
  assumes "deframe_bytes (rx_buffer s) = ([], rx_buffer s)" and "feeds_fit cs s"
  shows "dispatched (feed_all cs s) = dispatched s @ fst (deframe_bytes (rx_buffer s @ concat cs))
         \<and> rx_buffer (feed_all cs s) = snd (deframe_bytes (rx_buffer s @ concat cs))"
  using assms
proof (induction cs arbitrary: s)
  case Nil
  then show ?case by simp
next
  case (Cons c cs)
  let ?s1 = "snd (uart_receive_buf c s)"
  have fit: "rx_buffer_pos s + length c \<le> RX_BUFFER_SIZE" and fits: "feeds_fit cs ?s1"
    using Cons.prems(2) by simp_all
  note step = receive_projection [OF Cons.prems(1) fit]
  have settled: "deframe_bytes (rx_buffer ?s1) = ([], rx_buffer ?s1)"
    using step by (simp add: deframe_bytes_settled)
  note rest = Cons.IH [OF settled fits]
  have app: "deframe_bytes ((rx_buffer s @ c) @ concat cs) =
      (fst (deframe_bytes (rx_buffer s @ c)) @ fst (deframe_bytes (rx_buffer ?s1 @ concat cs)),
       snd (deframe_bytes (rx_buffer ?s1 @ concat cs)))"
    using step by (subst deframe_bytes_append) simp
  show ?case using rest step app by simp
qed

lemma feeds_fit_total:
  "deframe_bytes (rx_buffer s) = ([], rx_buffer s) \<Longrightarrow>
   rx_buffer_pos s + length (concat cs) \<le> RX_BUFFER_SIZE \<Longrightarrow> feeds_fit cs s"
proof (induction cs arbitrary: s)
  case Nil
  then show ?case by simp
next
  case (Cons c cs)
  let ?s1 = "snd (uart_receive_buf c s)"
  have fit: "rx_buffer_pos s + length c \<le> RX_BUFFER_SIZE"
    using Cons.prems(2) by simp
  note step = receive_projection [OF Cons.prems(1) fit]
  have settled: "deframe_bytes (rx_buffer ?s1) = ([], rx_buffer ?s1)"
    using step by (simp add: deframe_bytes_settled)
  have "rx_buffer_pos ?s1 \<le> rx_buffer_pos s + length c"
    using step deframe_bytes_length [of "rx_buffer s @ c"] by simp
  then have "rx_buffer_pos ?s1 + length (concat cs) \<le> RX_BUFFER_SIZE"
    using Cons.prems(2) by simp
  from Cons.IH [OF settled this] fit show ?case by simp
qed

lemma frame_drop_header: "drop 8 (frame pkt) = snd pkt"
  by (simp add: frame_def put_le16_def)

lemma deframe_bytes_one_frame:
  assumes "well_formed pkt"
  shows "deframe_bytes (frame pkt @ r) = (pkt # fst (deframe_bytes r), snd (deframe_bytes r))"
proof -
  have "HEADER_SIZE + unat (read_le16 (frame pkt @ r) 6) \<le> length (frame pkt @ r)"
    using assms by (simp add: frame_len frame_length HEADER_SIZE_def)
  then show ?thesis
    using assms
    by (subst deframe_bytes_frame)
       (simp_all add: frame_sig frame_type frame_len frame_payload frame_drop_header
          frame_length HEADER_SIZE_def prod_eq_iff)
qed

lemma deframe_bytes_frames:
  "\<forall>pkt \<in> set pkts. well_formed pkt \<Longrightarrow> deframe_bytes (concat (map frame pkts)) = (pkts, [])"
proof (induction pkts)
  case Nil
  then show ?case by (simp add: deframe_bytes_short HEADER_SIZE_def)
next
  case (Cons pkt pkts)
  then show ?case by (simp add: deframe_bytes_one_frame)
qed

lemma deframe_bytes_prefix:
  assumes "well_formed pkt" and "staged @ rest = frame pkt" and "rest \<noteq> []"
  shows "deframe_bytes staged = ([], staged)"
proof (cases "HEADER_SIZE \<le> length staged")
  case False
  then show ?thesis by (simp add: deframe_bytes_short)
next
  case True
  then have l4: "4 \<le> length staged" and l8: "6 + 2 \<le> length staged"
    by (simp_all add: HEADER_SIZE_def)
  have "read_le32 (staged @ rest) 0 = PACKET_SIGNATURE"
    using frame_sig [of pkt "[]"] assms(2) by simp
  then have sig: "read_le32 staged 0 = PACKET_SIGNATURE"
    using l4 by (simp add: read_le32_append)
  have "unat (read_le16 (staged @ rest) 6) = length (snd pkt)"
    using frame_len [OF assms(1), of "[]"] assms(2) by simp
  then have len: "unat (read_le16 staged 6) = length (snd pkt)"
    using l8 by (simp add: read_le16_append)
  have "length staged + length rest = 8 + length (snd pkt)"
    using arg_cong [OF assms(2), of length] by (simp add: frame_length)
  then have "length staged < HEADER_SIZE + unat (read_le16 staged 6)"
    using assms(3) len by (cases rest) (simp_all add: HEADER_SIZE_def)
  with True sig show ?thesis by (simp add: deframe_bytes_wait)
qed

lemma sig_free_tail: "sig_free (g # G) \<Longrightarrow> sig_free G"
  by (cases "g # G" rule: sig_free.cases) auto

lemma sig_free_head:
  assumes "sig_free (g # G)"
  shows "read_le32 (g # G @ frame pkt @ r) 0 \<noteq> PACKET_SIGNATURE"
proof (cases G)
  case Nil
  then show ?thesis
    by (simp add: read_le32_def frame_def le32_signature_bytes)
next
  case G1: (Cons a G1)
  show ?thesis
  proof (cases G1)
    case Nil
    with G1 show ?thesis
      by (simp add: read_le32_def frame_def le32_signature_bytes)
  next
    case G2: (Cons b G2)
    show ?thesis
    proof (cases G2)
      case Nil
      with G1 G2 show ?thesis
        by (simp add: read_le32_def frame_def le32_signature_bytes)
    next
      case (Cons c G3)
      with G1 G2 assms show ?thesis
        by (simp add: read_le32_def)
    qed
  qed
qed

lemma deframe_bytes_garbage:
  "sig_free G \<Longrightarrow> deframe_bytes (G @ frame pkt @ r) = deframe_bytes (frame pkt @ r)"
proof (induction G)
  case Nil
  then show ?case by simp
next
  case (Cons g G)
  have "HEADER_SIZE \<le> length ((g # G) @ frame pkt @ r)"
    by (simp add: frame_length HEADER_SIZE_def)
  moreover have "read_le32 ((g # G) @ frame pkt @ r) 0 \<noteq> PACKET_SIGNATURE"
    using sig_free_head [OF Cons.prems] by simp
  ultimately have "deframe_bytes ((g # G) @ frame pkt @ r) = deframe_bytes (G @ frame pkt @ r)"
    by (subst deframe_bytes_resync) simp_all
  with Cons.IH sig_free_tail [OF Cons.prems] show ?case by simp
qed

lemma deframe_bytes_Nil: "deframe_bytes [] = ([], [])"
  by (simp add: deframe_bytes_short HEADER_SIZE_def)

lemma deframe_settled:
  assumes "deframe_bytes (rx_buffer s) = ([], rx_buffer s)"
  shows "deframe s = s"
proof (cases "HEADER_SIZE \<le> rx_buffer_pos s")
  case False
  then show ?thesis by (simp add: deframe_short)
next
  case long: True
  show ?thesis
  proof (cases "read_le32 (rx_buffer s) 0 = PACKET_SIGNATURE")
    case False
    with long have "deframe_bytes (rx_buffer s) = deframe_bytes (drop 1 (rx_buffer s))"
      by (simp add: deframe_bytes_resync)
    with assms have "snd (deframe_bytes (drop 1 (rx_buffer s))) = rx_buffer s"
      by simp
    with deframe_bytes_length [of "drop 1 (rx_buffer s)"] long show ?thesis
      by (simp add: HEADER_SIZE_def)
  next
    case sig: True
    show ?thesis
    proof (cases "rx_buffer_pos s < HEADER_SIZE + unat (read_le16 (rx_buffer s) 6)")
      case True
      with long sig show ?thesis by (simp add: deframe_wait)
    next
      case False
      with sig assms show ?thesis by (simp add: deframe_bytes_frame)
    qed
  qed
qed

lemmas frame_sig_Nil = frame_sig [of _ "[]", simplified]
lemmas frame_type_Nil = frame_type [of _ "[]", simplified]
lemmas frame_len_Nil = frame_len [of _ "[]", simplified]

lemma deframe_state_update_short:
  assumes "length p < 2" and "rx_buffer s = frame (4, p) @ rest"
  shows "deframe s =
           deframe (s\<lparr>rx_buffer := rest,
                      klog := klog s @ [State_Update_payload_too_small],
                      dispatched := dispatched s @ [(4, p)]\<rparr>)"
proof -
  have wf: "well_formed (4, p)" using assms(1) by (simp add: well_formed_def)
  have len: "unat (read_le16 (rx_buffer s) 6) = length p"
    using frame_len [OF wf, of rest] assms(2) by simp
  have ty: "read_le16 (rx_buffer s) 4 = 4"
    using frame_type [of "(4, p)" rest] assms(2) by simp
  have sig: "read_le32 (rx_buffer s) 0 = PACKET_SIGNATURE"
    using frame_sig [of "(4, p)" rest] assms(2) by simp
  have full: "HEADER_SIZE + unat (read_le16 (rx_buffer s) 6) \<le> rx_buffer_pos s"
    using len assms(2) by (simp add: frame_length HEADER_SIZE_def)
  have "dispatch 4 (length p) s =
          s\<lparr>klog := klog s @ [State_Update_payload_too_small],
            dispatched := dispatched s @ [(4, p)]\<rparr>"
    using assms by (simp add: dispatch_def Let_def HEADER_SIZE_def frame_drop_header frame_length)
  then show ?thesis
    using assms(2)
    by (subst deframe_frame [OF sig full], cases s)
       (simp add: frame_len [OF wf] frame_type HEADER_SIZE_def frame_length)
qed

lemma receive_state_update:
  assumes "2 \<le> length p" and "length p \<le> 2040" and "rx_buffer s = []"
  shows "uart_receive_buf (frame (4, p)) s =
           (int (length (frame (4, p))),
            s\<lparr>root_state := p ! 0, version := p ! 1,
              klog := klog s @ [State_Update_Packet_Received, Root_State (p ! 0), Version (p ! 1)],
              dispatched := dispatched s @ [(4, p)]\<rparr>)"
proof -
  let ?s0 = "s\<lparr>rx_buffer := frame (4, p)\<rparr>"
  have wf: "well_formed (4, p)" using assms(2) by (simp add: well_formed_def)
  have len: "unat (read_le16 (rx_buffer ?s0) 6) = length p"
    using frame_len_Nil [OF wf] by simp
  have ty: "read_le16 (rx_buffer ?s0) 4 = 4"
    using frame_type_Nil [of "(4, p)"] by simp
  have sig: "read_le32 (rx_buffer ?s0) 0 = PACKET_SIGNATURE"
    using frame_sig_Nil [of "(4, p)"] by simp
  have full: "HEADER_SIZE + unat (read_le16 (rx_buffer ?s0) 6) \<le> rx_buffer_pos ?s0"
    using len by (simp add: frame_length HEADER_SIZE_def)
  have d: "dispatch 4 (length p) ?s0 =
          ?s0\<lparr>root_state := p ! 0, version := p ! 1,
              klog := klog s @ [State_Update_Packet_Received, Root_State (p ! 0), Version (p ! 1)],
              dispatched := dispatched s @ [(4, p)]\<rparr>"
    using assms(1) by (simp add: dispatch_def Let_def HEADER_SIZE_def frame_drop_header)
  have "deframe ?s0 = s\<lparr>root_state := p ! 0, version := p ! 1,
              klog := klog s @ [State_Update_Packet_Received, Root_State (p ! 0), Version (p ! 1)],
              dispatched := dispatched s @ [(4, p)]\<rparr>"
    using assms(3)
    by (subst deframe_frame [OF sig full])
       (simp add: frame_len_Nil [OF wf] frame_type_Nil d [simplified] HEADER_SIZE_def frame_length
          deframe_short)
  moreover have "frame (4, p) \<noteq> []" by (simp add: frame_def)
  ultimately show ?thesis
    using assms(2,3) by (simp add: uart_receive_buf_def frame_length RX_BUFFER_SIZE_def)
qed

lemma initial_settled: "deframe_bytes (rx_buffer initial_state) = ([], rx_buffer initial_state)"
  by (simp add: initial_state_def deframe_bytes_Nil)

section \<open>The ring: cursors and unread bytes\<close>

lemma mod_once: "N \<le> x \<Longrightarrow> x < 2 * N \<Longrightarrow> x mod N = x - (N::nat)"
  by (simp add: le_mod_geq)

lemma ring_count_closes:
  "t < N \<Longrightarrow> h < N \<Longrightarrow> (t + (h + N - t) mod N) mod N = (h::nat)"
  by (cases "t \<le> h") (simp_all add: mod_once)

lemma ring_slot_unread:
  "t < N \<Longrightarrow> h < N \<Longrightarrow> i < (h + N - t) mod N \<Longrightarrow> (t + i) mod N \<noteq> (h::nat)"
  by (cases "t \<le> h"; cases "t + i < N") (auto simp: mod_once)

lemma ring_count_grows:
  "t < N \<Longrightarrow> h < N \<Longrightarrow> (h + 1) mod N \<noteq> t \<Longrightarrow>
   ((h + 1) mod N + N - t) mod N = Suc ((h + N - t) mod N)"
  by (cases "t \<le> h"; cases "h + 1 < N") (auto simp: mod_once)

lemma ring_count_full:
  assumes "t < N" and "h < N" and "(h + 1) mod N = t"
  shows "(h + N - t) mod N = N - (1::nat)"
proof (cases "h + 1 < N")
  case True
  have "t = (h + 1) mod N" using assms(3) by (rule sym)
  also have "\<dots> = h + 1" using True by (rule mod_less)
  finally show ?thesis using True by simp
next
  case False
  then have "h + 1 = N" using assms(2) by simp
  have "t = (h + 1) mod N" using assms(3) by (rule sym)
  also have "\<dots> = 0" unfolding \<open>h + 1 = N\<close> by (rule mod_self)
  finally show ?thesis using \<open>h + 1 = N\<close> by (simp add: mod_once)
qed

lemma ring_count_stays_full:
  "1 < N \<Longrightarrow> t < N \<Longrightarrow> (t + N - (t + 1) mod N) mod N = N - (1::nat)"
  by (cases "t + 1 < N") (auto simp: mod_once)

lemma ring_count_shrinks:
  "t < N \<Longrightarrow> h < N \<Longrightarrow> h \<noteq> t \<Longrightarrow>
   Suc ((h + N - (t + 1) mod N) mod N) = (h + N - t) mod N"
  by (cases "t \<le> h"; cases "t + 1 < N") (auto simp: mod_once)

lemma ring_index_shift: "((t + 1) mod N + i) mod N = (t + Suc i) mod (N::nat)"
  by (simp add: mod_add_left_eq)


lemma ring_index_shift_Suc: "(Suc t mod N + i) mod N = Suc (t + i) mod N"
  using mod_add_left_eq [of "Suc t" N i] by simp

lemma ring_next_differs:
  assumes "1 < N"
  shows "Suc t mod N \<noteq> t"
proof
  assume eq: "Suc t mod N = t"
  have "t < N"
    using assms mod_less_divisor [of N "Suc t"] unfolding eq by simp
  show False
  proof (cases "Suc t < N")
    case True
    from mod_less [OF this] eq show False by simp
  next
    case False
    with \<open>t < N\<close> have "Suc t = N" by simp
    with eq assms show False by simp
  qed
qed

lemma ring_contents_length:
  "length (ring_contents s) = (buffer_head s + BUF_SIZE - buffer_tail s) mod BUF_SIZE"
  by (simp add: ring_contents_def)

lemma ring_contents_bound: "length (ring_contents s) \<le> BUF_SIZE - 1"
proof -
  have "(buffer_head s + BUF_SIZE - buffer_tail s) mod BUF_SIZE < BUF_SIZE"
    by (simp add: BUF_SIZE_def)
  then show ?thesis by (simp add: ring_contents_length)
qed

lemma ring_empty_iff:
  assumes "ring_inv s"
  shows "buffer_head s = buffer_tail s \<longleftrightarrow> ring_contents s = []"
proof
  assume "buffer_head s = buffer_tail s"
  then show "ring_contents s = []" by (simp add: ring_contents_def)
next
  assume "ring_contents s = []"
  then have "(buffer_head s + BUF_SIZE - buffer_tail s) mod BUF_SIZE = 0"
    using ring_contents_length [of s] by simp
  with ring_count_closes [of "buffer_tail s" BUF_SIZE "buffer_head s"] assms
  show "buffer_head s = buffer_tail s" by (simp add: ring_inv_def)
qed

lemma enqueue_byte_inv: "ring_inv s \<Longrightarrow> ring_inv (enqueue_byte b s)"
  by (simp add: ring_inv_def enqueue_byte_def Let_def BUF_SIZE_def)

lemma enqueue_byte_nonempty:
  "buffer_head (enqueue_byte b s) \<noteq> buffer_tail (enqueue_byte b s)"
proof -
  have "Suc t mod 2048 \<noteq> t" for t :: nat
    by (rule ring_next_differs) simp
  then have "t \<noteq> Suc t mod 2048" for t :: nat
    by (rule not_sym)
  then show ?thesis by (simp add: enqueue_byte_def Let_def BUF_SIZE_def)
qed

lemma enqueue_byte_contents:
  assumes "ring_inv s"
  shows "ring_contents (enqueue_byte b s) =
           (if length (ring_contents s) = BUF_SIZE - 1 then tl (ring_contents s) @ [b]
            else ring_contents s @ [b])"
proof -
  let ?N = BUF_SIZE and ?h = "buffer_head s" and ?t = "buffer_tail s" and ?buf = "uart_buffer s"
  let ?n = "(?h + ?N - ?t) mod ?N"
  have h: "?h < ?N" and t: "?t < ?N" and len: "length ?buf = ?N"
    using assms by (simp_all add: ring_inv_def)
  have closes: "(?t + ?n) mod ?N = ?h"
    using t h by (rule ring_count_closes)
  have unread: "(?t + i) mod ?N \<noteq> ?h" if "i < ?n" for i
    using t h that by (rule ring_slot_unread)
  then have unread': "?h \<noteq> (?t + i) mod ?N" if "i < ?n" for i
    using that by fastforce
  show ?thesis
  proof (cases "(?h + 1) mod ?N = ?t")
    case False
    then have s': "enqueue_byte b s = s\<lparr>uart_buffer := ?buf[?h := b], buffer_head := (?h + 1) mod ?N\<rparr>"
      by (simp add: enqueue_byte_def Let_def)
    have n': "((?h + 1) mod ?N + ?N - ?t) mod ?N = Suc ?n"
      using t h False by (rule ring_count_grows)
    have "Suc ?n < ?N"
      unfolding n' [symmetric] by (simp add: BUF_SIZE_def)
    then have notfull: "length (ring_contents s) \<noteq> ?N - 1"
      by (simp add: ring_contents_length)
    have "ring_contents (enqueue_byte b s) =
            map (\<lambda>i. ?buf[?h := b] ! ((?t + i) mod ?N)) [0 ..< Suc ?n]"
      unfolding s' ring_contents_def using n' by simp
    also have "\<dots> = map (\<lambda>i. ?buf[?h := b] ! ((?t + i) mod ?N)) [0 ..< ?n] @ [b]"
      using closes h len by simp
    also have "map (\<lambda>i. ?buf[?h := b] ! ((?t + i) mod ?N)) [0 ..< ?n] = ring_contents s"
      unfolding ring_contents_def using unread' by (intro map_cong) simp_all
    finally show ?thesis using notfull by simp
  next
    case True
    then have s': "enqueue_byte b s =
        s\<lparr>uart_buffer := ?buf[?h := b], buffer_head := ?t,
          klog := klog s @ [UART_buffer_overflow], buffer_tail := (?t + 1) mod ?N\<rparr>"
      by (simp add: enqueue_byte_def Let_def)
    have n: "?n = ?N - 1"
      using t h True by (rule ring_count_full)
    have n': "(?t + ?N - (?t + 1) mod ?N) mod ?N = ?N - 1"
      using t by (intro ring_count_stays_full) (simp_all add: BUF_SIZE_def)
    have full: "length (ring_contents s) = ?N - 1"
      using n by (simp add: ring_contents_length)
    have "ring_contents (enqueue_byte b s) = tl (ring_contents s) @ [b]"
    proof (rule nth_equalityI)
      show "length (ring_contents (enqueue_byte b s)) = length (tl (ring_contents s) @ [b])"
        using n' full by (simp add: s' ring_contents_length BUF_SIZE_def)
    next
      fix i
      assume "i < length (ring_contents (enqueue_byte b s))"
      then have i: "i < ?N - 1"
        using n' by (simp add: s' ring_contents_length)
      have lhs: "ring_contents (enqueue_byte b s) ! i = ?buf[?h := b] ! ((?t + Suc i) mod ?N)"
        using i n' by (simp add: s' ring_contents_def ring_index_shift_Suc)
      show "ring_contents (enqueue_byte b s) ! i = (tl (ring_contents s) @ [b]) ! i"
      proof (cases "Suc i < ?N - 1")
        case True
        then have "(?t + Suc i) mod ?N \<noteq> ?h"
          using unread [of "Suc i"] n by simp
        moreover have "tl (ring_contents s) ! i = ?buf ! ((?t + Suc i) mod ?N)"
          using True n by (simp add: nth_tl ring_contents_length) (simp add: ring_contents_def)
        ultimately show ?thesis
          using lhs True full by (simp add: nth_append BUF_SIZE_def)
      next
        case False
        with i have last: "Suc i = ?N - 1" by simp
        then have "(?t + Suc i) mod ?N = ?h"
          using closes n by simp
        then show ?thesis
          using lhs last full h len by (simp add: nth_append BUF_SIZE_def)
      qed
    qed
    with full show ?thesis by simp
  qed
qed

lemma dequeue_byte_inv: "ring_inv s \<Longrightarrow> ring_inv (snd (dequeue_byte s))"
  by (simp add: ring_inv_def dequeue_byte_def BUF_SIZE_def)

lemma dequeue_byte_contents:
  assumes "ring_inv s" and "buffer_head s \<noteq> buffer_tail s"
  shows "ring_contents s = fst (dequeue_byte s) # ring_contents (snd (dequeue_byte s))"
proof -
  let ?N = BUF_SIZE and ?h = "buffer_head s" and ?t = "buffer_tail s" and ?buf = "uart_buffer s"
  let ?n' = "(?h + ?N - (?t + 1) mod ?N) mod ?N"
  have h: "?h < ?N" and t: "?t < ?N"
    using assms(1) by (simp_all add: ring_inv_def)
  have n: "(?h + ?N - ?t) mod ?N = Suc ?n'"
    using ring_count_shrinks [OF t h assms(2)] by simp
  have "ring_contents s = map (\<lambda>i. ?buf ! ((?t + i) mod ?N)) [0 ..< Suc ?n']"
    unfolding ring_contents_def n ..
  also have "\<dots> = ?buf ! ?t # map (\<lambda>i. ?buf ! ((?t + Suc i) mod ?N)) [0 ..< ?n']"
    using t by (simp add: upt_conv_Cons map_Suc_upt [symmetric] del: upt_Suc)
  also have "map (\<lambda>i. ?buf ! ((?t + Suc i) mod ?N)) [0 ..< ?n'] = ring_contents (snd (dequeue_byte s))"
    by (simp add: ring_contents_def dequeue_byte_def ring_index_shift_Suc)
  finally show ?thesis by (simp add: dequeue_byte_def)
qed

lemma keep_last_append:
  "drop (length (drop (length xs - M) xs @ ys) - M) (drop (length xs - M) xs @ ys)
     = drop (length (xs @ ys) - M) (xs @ ys)"
proof (cases "length xs \<le> M")
  case True
  then show ?thesis by simp
next
  case False
  then have "length (drop (length xs - M) xs) = M" by simp
  then show ?thesis using False by (simp add: add.commute)
qed

lemma enqueue_byte_keeps_last:
  assumes "ring_inv s"
  shows "ring_contents (enqueue_byte b s) =
           drop (length (ring_contents s @ [b]) - (BUF_SIZE - 1)) (ring_contents s @ [b])"
proof (cases "length (ring_contents s) = BUF_SIZE - 1")
  case True
  then have "ring_contents s \<noteq> []" by (auto simp: BUF_SIZE_def)
  with True show ?thesis
    using enqueue_byte_contents [OF assms, of b] by (simp add: drop_Suc tl_append2 BUF_SIZE_def)
next
  case False
  with ring_contents_bound [of s] show ?thesis
    using enqueue_byte_contents [OF assms, of b] by simp
qed

lemma enqueue_contents:
  assumes "ring_inv s"
  shows "ring_inv (enqueue bs s)
         \<and> ring_contents (enqueue bs s) =
             drop (length (ring_contents s @ bs) - (BUF_SIZE - 1)) (ring_contents s @ bs)"
  using assms
proof (induction bs arbitrary: s)
  case Nil
  with ring_contents_bound [of s] show ?case by (simp add: enqueue_def)
next
  case (Cons b bs)
  have step: "enqueue (b # bs) s = enqueue bs (enqueue_byte b s)"
    by (simp add: enqueue_def)
  note inv = enqueue_byte_inv [OF Cons.prems, of b]
  from Cons.IH [OF inv] keep_last_append [of "ring_contents s @ [b]" "BUF_SIZE - 1" bs]
  show ?case
    unfolding step enqueue_byte_keeps_last [OF Cons.prems] by simp
qed

lemma enqueue_ops_contents:
  assumes "ring_inv s"
  shows "ring_inv (fold enqueue ops s)
         \<and> ring_contents (fold enqueue ops s) =
             drop (length (ring_contents s @ concat ops) - (BUF_SIZE - 1))
               (ring_contents s @ concat ops)"
  using assms
proof (induction ops arbitrary: s)
  case Nil
  with ring_contents_bound [of s] show ?case by simp
next
  case (Cons bs ops)
  note first = enqueue_contents [OF Cons.prems, of bs]
  from Cons.IH [of "enqueue bs s"] first
    keep_last_append [of "ring_contents s @ bs" "BUF_SIZE - 1" "concat ops"]
  show ?case by simp
qed

lemma read_loop_stop:
  "buffer_head s = buffer_tail s \<or> count \<le> n \<Longrightarrow>
   read_loop put_user_ok count n buf s = (int n, buf, s)"
  by (subst read_loop.simps) auto

lemma read_loop_step:
  "buffer_head s \<noteq> buffer_tail s \<Longrightarrow> n < count \<Longrightarrow> put_user_ok n \<Longrightarrow>
   read_loop put_user_ok count n buf s =
     read_loop put_user_ok count (n + 1) (buf @ [fst (dequeue_byte s)]) (snd (dequeue_byte s))"
  by (subst read_loop.simps) simp

lemma read_loop_fault:
  "buffer_head s \<noteq> buffer_tail s \<Longrightarrow> n < count \<Longrightarrow> \<not> put_user_ok n \<Longrightarrow>
   read_loop put_user_ok count n buf s = (- EFAULT, buf, s)"
  by (subst read_loop.simps) simp

lemma read_loop_drains:
  assumes "ring_inv s" and "\<forall>i<count. put_user_ok i"
  shows "fst (read_loop put_user_ok count n buf s)
           = int (n + min (count - n) (length (ring_contents s)))
         \<and> fst (snd (read_loop put_user_ok count n buf s))
           = buf @ take (count - n) (ring_contents s)
         \<and> ring_contents (snd (snd (read_loop put_user_ok count n buf s)))
           = drop (count - n) (ring_contents s)
         \<and> ring_inv (snd (snd (read_loop put_user_ok count n buf s)))"
  using assms
proof (induction put_user_ok count n buf s rule: read_loop.induct)
  case (1 put_user_ok count n buf s)
  show ?case
  proof (cases "buffer_head s \<noteq> buffer_tail s \<and> n < count")
    case False
    then have "ring_contents s = [] \<or> count \<le> n"
      using ring_empty_iff [OF "1.prems"(1)] by auto
    with False "1.prems"(1) show ?thesis
      by (auto simp: read_loop_stop)
  next
    case True
    then have ok: "put_user_ok n" using "1.prems"(2) by simp
    note c = dequeue_byte_contents [OF "1.prems"(1)]
    have c': "ring_contents s = fst (dequeue_byte s) # ring_contents (snd (dequeue_byte s))"
      using c True by simp
    note inv = dequeue_byte_inv [OF "1.prems"(1)]
    note IH = "1.IH" [OF True _ inv "1.prems"(2)]
    have cn: "count - n = Suc (count - (n + 1))" using True by arith
    show ?thesis
      using True ok IH
      by (simp add: read_loop_step c' [symmetric])
         (simp add: cn c' del: Suc_diff_Suc)
  qed
qed

lemma initial_ring: "ring_inv initial_state" "ring_contents initial_state = []"
  by (simp_all add: ring_inv_def ring_contents_def initial_state_def BUF_SIZE_def)

lemma ring_inv_other [simp]:
  "ring_inv (s\<lparr>rx_buffer := r\<rparr>) = ring_inv s"
  "ring_inv (s\<lparr>klog := l\<rparr>) = ring_inv s"
  "ring_inv (s\<lparr>dispatched := d\<rparr>) = ring_inv s"
  "ring_inv (s\<lparr>root_state := a\<rparr>) = ring_inv s"
  "ring_inv (s\<lparr>version := v\<rparr>) = ring_inv s"
  by (simp_all add: ring_inv_def)

lemma dispatch_inv: "ring_inv s \<Longrightarrow> ring_inv (dispatch t n s)"
  by (simp add: dispatch_def Let_def enqueue_contents)

lemma deframe_inv: "ring_inv s \<Longrightarrow> ring_inv (deframe s)"
proof (induction s rule: deframe.induct)
  case (1 s)
  show ?case
  proof (cases "HEADER_SIZE \<le> rx_buffer_pos s")
    case False
    with "1.prems" show ?thesis by (simp add: deframe_short)
  next
    case long: True
    show ?thesis
    proof (cases "read_le32 (rx_buffer s) 0 = PACKET_SIGNATURE")
      case False
      with long "1.IH"(1) "1.prems" show ?thesis by (simp add: deframe_resync)
    next
      case sig: True
      show ?thesis
      proof (cases "rx_buffer_pos s < HEADER_SIZE + unat (read_le16 (rx_buffer s) 6)")
        case True
        with long sig "1.prems" show ?thesis by (simp add: deframe_wait)
      next
        case False
        with long sig "1.IH"(2) "1.prems" show ?thesis
          by (simp add: deframe_frame dispatch_inv)
      qed
    qed
  qed
qed

lemma uart_receive_buf_inv: "ring_inv s \<Longrightarrow> ring_inv (snd (uart_receive_buf data s))"
  by (simp add: uart_receive_buf_def deframe_inv)

lemma feed_all_inv: "ring_inv s \<Longrightarrow> ring_inv (feed_all cs s)"
  by (induction cs arbitrary: s) (simp_all add: uart_receive_buf_inv)

lemma read_loop_inv: "ring_inv s \<Longrightarrow> ring_inv (snd (snd (read_loop put_user_ok count n buf s)))"
proof (induction put_user_ok count n buf s rule: read_loop.induct)
  case (1 put_user_ok count n buf s)
  show ?case
  proof (cases "buffer_head s \<noteq> buffer_tail s \<and> n < count")
    case False
    with "1.prems" show ?thesis by (auto simp: read_loop_stop)
  next
    case True
    show ?thesis
    proof (cases "put_user_ok n")
      case False
      with True "1.prems" show ?thesis by (simp add: read_loop_fault)
    next
      case ok: True
      from "1.IH" [OF True _ dequeue_byte_inv [OF "1.prems"]] True ok show ?thesis
        by (simp add: read_loop_step)
    qed
  qed
qed

lemma uart_misc_read_inv:
  "ring_inv s \<Longrightarrow> ring_inv (snd (snd (uart_misc_read nonblock count put_user_ok arrivals s)))"
  by (simp add: uart_misc_read_def wait_event_interruptible_def Let_def read_loop_inv feed_all_inv)

lemma staging_bounded:
  assumes "deframe_bytes (rx_buffer s) = ([], rx_buffer s)"
    and "rx_buffer_pos s \<le> RX_BUFFER_SIZE"
  shows "rx_buffer_pos (snd (uart_receive_buf data s)) \<le> RX_BUFFER_SIZE"
proof (cases "rx_buffer_pos s + length data \<le> RX_BUFFER_SIZE")
  case True
  from receive_projection [OF assms(1) True] deframe_bytes_length [of "rx_buffer s @ data"] True
  show ?thesis by simp
next
  case False
  with assms(2) show ?thesis by (simp add: uart_receive_buf_def)
qed

lemma ring_contents_other [simp]:
  "ring_contents (s\<lparr>klog := l\<rparr>) = ring_contents s"
  "ring_contents (s\<lparr>dispatched := d\<rparr>) = ring_contents s"
  "ring_contents (s\<lparr>rx_buffer := r\<rparr>) = ring_contents s"
  by (simp_all add: ring_contents_def)

lemma dispatch_enqueues:
  assumes "ring_inv s" and "t \<noteq> 4"
  shows "ring_contents (dispatch t n s) =
           drop (length (ring_contents s @ take (HEADER_SIZE + n) (rx_buffer s)) - (BUF_SIZE - 1))
             (ring_contents s @ take (HEADER_SIZE + n) (rx_buffer s))"
  using assms by (simp add: dispatch_def Let_def enqueue_contents)

lemma dispatch_state_update_short:
  "n < 2 \<Longrightarrow>
   dispatch 4 n s =
     s\<lparr>klog := klog s @ [State_Update_payload_too_small],
       dispatched := dispatched s @ [(4, take n (drop HEADER_SIZE (rx_buffer s)))]\<rparr>"
  by (cases s) (simp add: dispatch_def Let_def)

section \<open>Framing\<close>

text \<open>
  Claim C1. Take any sequence of receive callbacks whose chunks, concatenated, are the frames
  of a list of well-formed packets, starting with an empty staging buffer and such that no
  call takes the overflow return. Then the dispatch code is reached exactly once per packet,
  in the order of the frames, with the packet's type and its payload byte for byte, and the
  staging buffer ends empty, however the bytes are cut into chunks.
\<close>

theorem framing_chunked:
  assumes "\<forall>pkt \<in> set pkts. well_formed pkt"
    and "concat chunks = concat (map frame pkts)"
    and "rx_buffer s = []"
    and "feeds_fit chunks s"
  shows "dispatched (feed_all chunks s) = dispatched s @ pkts
         \<and> rx_buffer (feed_all chunks s) = []"
proof -
  have "deframe_bytes (rx_buffer s) = ([], rx_buffer s)"
    using assms(3) by (simp add: deframe_bytes_Nil)
  from feed_all_projection [OF this assms(4)] show ?thesis
    using assms(1,2,3) by (simp add: deframe_bytes_frames)
qed

theorem framing_chunked_witness:
  "dispatched (feed_all [[0x0D], [0xF0, 0xAD], [0x0B, 4, 0, 2, 0, 1], [2, 0x0D, 0xF0],
                         [0xAD, 0x0B, 7, 0, 1, 0], [3]] initial_state)
     = dispatched initial_state @ [(4, [1, 2]), (7, [3])]
   \<and> rx_buffer (feed_all [[0x0D], [0xF0, 0xAD], [0x0B, 4, 0, 2, 0, 1], [2, 0x0D, 0xF0],
                           [0xAD, 0x0B, 7, 0, 1, 0], [3]] initial_state) = []"
proof -
  have fit: "feeds_fit [[0x0D], [0xF0, 0xAD], [0x0B, 4, 0, 2, 0, 1], [2, 0x0D, 0xF0],
                        [0xAD, 0x0B, 7, 0, 1, 0], [3]] initial_state"
    by (rule feeds_fit_total [OF initial_settled])
       (simp add: initial_state_def RX_BUFFER_SIZE_def)
  show ?thesis
    using framing_chunked [of "[(4, [1, 2]), (7, [3])]" _ initial_state, OF _ _ _ fit]
    by (simp add: well_formed_def frame_def put_le16_def initial_state_def)
qed

text \<open>
  Claim C2, as stated, fails when a call overflows the staging buffer: seven garbage bytes
  are staged by a first call, a frame of 2042 bytes arrives in a second call, 7 + 2042
  exceeds 2048, the staging buffer is reset and no packet is dispatched.
\<close>

theorem garbage_counterexample:
  "sig_free [0, 0, 0, 0, 0, 0, 0] \<and> well_formed (7, replicate 2034 0)
   \<and> dispatched (feed_all [[0, 0, 0, 0, 0, 0, 0], frame (7, replicate 2034 0)] initial_state) = []"
  by (simp add: le32_to_cpu_def PACKET_SIGNATURE_def well_formed_def uart_receive_buf_def
      initial_state_def deframe_short HEADER_SIZE_def RX_BUFFER_SIZE_def frame_length)

text \<open>
  Claim C2, amended. When at least 8 bytes are staged and the first four do not read as the
  signature, the loop drops exactly the first staged byte and scans again. Garbage that
  holds no signature at any offset, followed by one well-formed frame, fed in any chunks
  from an empty staging buffer such that no call takes the overflow return, leads to
  exactly one dispatched packet, the frame's, and to an empty staging buffer.
\<close>

theorem resync_then_frame:
  assumes "sig_free garbage" and "well_formed pkt"
    and "concat chunks = garbage @ frame pkt"
    and "rx_buffer s = []"
    and "feeds_fit chunks s"
  shows "(HEADER_SIZE \<le> rx_buffer_pos t \<and> read_le32 (rx_buffer t) 0 \<noteq> PACKET_SIGNATURE \<longrightarrow>
            deframe t = deframe (t\<lparr>klog := klog t @ [Invalid_packet_signature],
                                    rx_buffer := drop 1 (rx_buffer t)\<rparr>))
         \<and> dispatched (feed_all chunks s) = dispatched s @ [pkt]
         \<and> rx_buffer (feed_all chunks s) = []"
proof -
  have "deframe_bytes (rx_buffer s) = ([], rx_buffer s)"
    using assms(4) by (simp add: deframe_bytes_Nil)
  from feed_all_projection [OF this assms(5)]
  have "dispatched (feed_all chunks s) = dispatched s @ [pkt] \<and> rx_buffer (feed_all chunks s) = []"
    using assms(1,2,3,4) deframe_bytes_garbage [of garbage pkt "[]"]
      deframe_bytes_one_frame [of pkt "[]"]
    by (simp add: deframe_bytes_Nil)
  then show ?thesis by (simp add: deframe_resync)
qed

theorem resync_then_frame_witness:
  "deframe (initial_state\<lparr>rx_buffer := [0x55, 0x0D, 0xF0, 0xAD, 0x0D, 0xF0, 0xAD, 0x0B]\<rparr>)
     = deframe (initial_state\<lparr>klog := [Invalid_packet_signature],
                               rx_buffer := [0x0D, 0xF0, 0xAD, 0x0D, 0xF0, 0xAD, 0x0B]\<rparr>)
   \<and> dispatched (feed_all [[0x55, 0x0D], [0xF0, 0xAD, 0x0D, 0xF0, 0xAD], [0x0B, 7, 0, 1, 0, 3]]
        initial_state) = dispatched initial_state @ [(7, [3])]
   \<and> rx_buffer (feed_all [[0x55, 0x0D], [0xF0, 0xAD, 0x0D, 0xF0, 0xAD], [0x0B, 7, 0, 1, 0, 3]]
        initial_state) = []"
proof -
  have fit: "feeds_fit [[0x55, 0x0D], [0xF0, 0xAD, 0x0D, 0xF0, 0xAD], [0x0B, 7, 0, 1, 0, 3]]
               initial_state"
    by (rule feeds_fit_total [OF initial_settled])
       (simp add: initial_state_def RX_BUFFER_SIZE_def)
  show ?thesis
    using resync_then_frame [of "[0x55, 0x0D, 0xF0, 0xAD]" "(7, [3])" _ initial_state
        "initial_state\<lparr>rx_buffer := [0x55, 0x0D, 0xF0, 0xAD, 0x0D, 0xF0, 0xAD, 0x0B]\<rparr>",
        OF _ _ _ _ fit]
    by (simp add: well_formed_def frame_def put_le16_def initial_state_def
        le32_signature_bytes read_le32_def HEADER_SIZE_def)
qed

text \<open>
  Claim C3. When the staged bytes start with the signature and are fewer than 8 plus the
  length field, the loop stops and the state is unchanged. Feeding a proper, non-empty
  prefix of a well-formed frame to an empty staging buffer returns the count, writes no
  message and only stages the bytes; when the remaining bytes arrive, in any chunks and
  with no call overflowing, exactly that one packet is dispatched and the staging buffer
  is empty.
\<close>

theorem partial_frame_waits:
  assumes "well_formed pkt" and "staged @ rest = frame pkt"
    and "staged \<noteq> []" and "rest \<noteq> []"
    and "rx_buffer s = []"
    and "concat chunks = rest"
    and "feeds_fit (staged # chunks) s"
  shows "(HEADER_SIZE \<le> rx_buffer_pos t \<and> read_le32 (rx_buffer t) 0 = PACKET_SIGNATURE
            \<and> rx_buffer_pos t < HEADER_SIZE + unat (read_le16 (rx_buffer t) 6) \<longrightarrow> deframe t = t)
         \<and> uart_receive_buf staged s = (int (length staged), s\<lparr>rx_buffer := staged\<rparr>)
         \<and> dispatched (feed_all (staged # chunks) s) = dispatched s @ [pkt]
         \<and> rx_buffer (feed_all (staged # chunks) s) = []"
proof -
  have wait: "deframe_bytes staged = ([], staged)"
    using assms(1,2,4) by (rule deframe_bytes_prefix)
  have fit: "length staged \<le> RX_BUFFER_SIZE"
    using assms(5,7) by simp
  let ?s1 = "s\<lparr>rx_buffer := staged\<rparr>"
  have "deframe ?s1 = ?s1"
    using wait by (simp add: deframe_settled)
  then have first: "uart_receive_buf staged s = (int (length staged), ?s1)"
    using assms(3,5) fit by (simp add: uart_receive_buf_def)
  have settled: "deframe_bytes (rx_buffer s) = ([], rx_buffer s)"
    using assms(5) by (simp add: deframe_bytes_Nil)
  from feed_all_projection [OF settled assms(7)]
  have "dispatched (feed_all (staged # chunks) s) = dispatched s @ [pkt]
        \<and> rx_buffer (feed_all (staged # chunks) s) = []"
    using assms(1,2,5,6) deframe_bytes_one_frame [of pkt "[]"]
    by (simp add: deframe_bytes_Nil)
  with first show ?thesis by (simp add: deframe_wait)
qed

theorem partial_frame_waits_witness:
  "deframe (initial_state\<lparr>rx_buffer := [0x0D, 0xF0, 0xAD, 0x0B, 7, 0, 3, 0, 3]\<rparr>)
       = initial_state\<lparr>rx_buffer := [0x0D, 0xF0, 0xAD, 0x0B, 7, 0, 3, 0, 3]\<rparr>
   \<and> uart_receive_buf [0x0D, 0xF0, 0xAD, 0x0B, 7, 0, 3, 0, 3] initial_state
       = (int (length [0x0D, 0xF0, 0xAD, 0x0B, 7, 0, 3, 0, 3 :: byte]),
          initial_state\<lparr>rx_buffer := [0x0D, 0xF0, 0xAD, 0x0B, 7, 0, 3, 0, 3]\<rparr>)
   \<and> dispatched (feed_all [[0x0D, 0xF0, 0xAD, 0x0B, 7, 0, 3, 0, 3], [4], [5]] initial_state)
       = dispatched initial_state @ [(7, [3, 4, 5])]
   \<and> rx_buffer (feed_all [[0x0D, 0xF0, 0xAD, 0x0B, 7, 0, 3, 0, 3], [4], [5]] initial_state) = []"
proof -
  let ?t = "initial_state\<lparr>rx_buffer := [0x0D, 0xF0, 0xAD, 0x0B, 7, 0, 3, 0, 3]\<rparr>"
  have fit: "feeds_fit [[0x0D, 0xF0, 0xAD, 0x0B, 7, 0, 3, 0, 3], [4], [5]] initial_state"
    by (rule feeds_fit_total [OF initial_settled])
       (simp add: initial_state_def RX_BUFFER_SIZE_def)
  have wf: "well_formed (7, [3, 4, 5])"
    by (simp add: well_formed_def)
  have split: "[0x0D, 0xF0, 0xAD, 0x0B, 7, 0, 3, 0, 3] @ [4, 5] = frame (7, [3, 4, 5])"
    by (simp add: frame_def put_le16_def)
  have empty: "rx_buffer initial_state = []"
    by (simp add: initial_state_def)
  have rest: "concat [[4], [5]] = [4, 5 :: byte]"
    by simp
  have partial: "HEADER_SIZE \<le> rx_buffer_pos ?t \<and> read_le32 (rx_buffer ?t) 0 = PACKET_SIGNATURE
                 \<and> rx_buffer_pos ?t < HEADER_SIZE + unat (read_le16 (rx_buffer ?t) 6)"
    by (simp add: HEADER_SIZE_def read_le32_def le32_signature_bytes read_le16_def
        le16_to_cpu_def)
  from partial_frame_waits [OF wf split _ _ empty rest fit, of ?t] partial show ?thesis
    by blast
qed

section \<open>First in, first out, oldest dropped\<close>

text \<open>A ring holding 2047 unread bytes, and a frame staged for the dispatch code.\<close>

lemma full_ring:
  "ring_inv (enqueue (replicate 2047 1) (initial_state\<lparr>rx_buffer := frame (7, [3])\<rparr>))"
  "ring_contents (enqueue (replicate 2047 1) (initial_state\<lparr>rx_buffer := frame (7, [3])\<rparr>))
     = replicate 2047 1"
proof -
  have inv: "ring_inv (initial_state\<lparr>rx_buffer := frame (7, [3])\<rparr>)"
    by (simp add: initial_ring(1))
  from enqueue_contents [OF inv, of "replicate 2047 1"]
  show "ring_inv (enqueue (replicate 2047 1) (initial_state\<lparr>rx_buffer := frame (7, [3])\<rparr>))"
    and "ring_contents (enqueue (replicate 2047 1) (initial_state\<lparr>rx_buffer := frame (7, [3])\<rparr>))
     = replicate 2047 1"
    by (simp_all add: initial_ring(2) BUF_SIZE_def)
qed

text \<open>
  Claim C4. Enqueueing one byte appends it to the unread bytes, and drops the oldest unread
  byte when 2047 bytes are already stored. The dispatch code enqueues the whole frame of a
  packet that is not a state update. After any sequence of enqueue operations, the
  unread bytes are the last 2047 bytes of what was stored before followed by all the bytes
  enqueued, in order: exactly the oldest bytes are gone. A read whose caller buffer can be
  written returns the first \<open>count\<close> of these bytes, in that order, and leaves the rest.
\<close>

theorem fifo_drop_oldest:
  assumes "ring_inv s" and "\<forall>i<count. put_user_ok i"
  shows "ring_contents (enqueue_byte b s) =
           (if length (ring_contents s) = BUF_SIZE - 1 then tl (ring_contents s) @ [b]
            else ring_contents s @ [b])
         \<and> (t \<noteq> 4 \<longrightarrow>
              ring_contents (dispatch t n s) =
                drop (length (ring_contents s @ take (HEADER_SIZE + n) (rx_buffer s))
                        - (BUF_SIZE - 1))
                  (ring_contents s @ take (HEADER_SIZE + n) (rx_buffer s)))
         \<and> ring_contents (fold enqueue ops s) =
             drop (length (ring_contents s @ concat ops) - (BUF_SIZE - 1))
               (ring_contents s @ concat ops)
         \<and> (ring_contents (fold enqueue ops s) \<noteq> [] \<longrightarrow>
              fst (uart_misc_read nonblock count put_user_ok arrivals (fold enqueue ops s))
                = int (min count (length (ring_contents (fold enqueue ops s))))
              \<and> fst (snd (uart_misc_read nonblock count put_user_ok arrivals (fold enqueue ops s)))
                = take count (ring_contents (fold enqueue ops s))
              \<and> ring_contents
                  (snd (snd (uart_misc_read nonblock count put_user_ok arrivals (fold enqueue ops s))))
                = drop count (ring_contents (fold enqueue ops s)))"
proof -
  let ?s' = "fold enqueue ops s"
  note ops = enqueue_ops_contents [OF assms(1), of ops]
  then have inv: "ring_inv ?s'" by simp
  note drain = read_loop_drains [OF inv assms(2), of 0 "[]"]
  have "uart_misc_read nonblock count put_user_ok arrivals ?s'
          = read_loop put_user_ok count 0 [] ?s'" if "ring_contents ?s' \<noteq> []"
    using that ring_empty_iff [OF inv] by (simp add: uart_misc_read_def)
  with drain ops enqueue_byte_contents [OF assms(1), of b] dispatch_enqueues [OF assms(1), of t n]
  show ?thesis
    by simp
qed

theorem fifo_drop_oldest_witness:
  "ring_contents (enqueue_byte 9
      (enqueue (replicate 2047 1) (initial_state\<lparr>rx_buffer := frame (7, [3])\<rparr>)))
     = replicate 2046 1 @ [9]
   \<and> ring_contents (dispatch 7 1
        (enqueue (replicate 2047 1) (initial_state\<lparr>rx_buffer := frame (7, [3])\<rparr>)))
       = replicate 2038 1 @ frame (7, [3])
   \<and> ring_contents (fold enqueue [[2, 3], [4]]
        (enqueue (replicate 2047 1) (initial_state\<lparr>rx_buffer := frame (7, [3])\<rparr>)))
       = replicate 2044 1 @ [2, 3, 4]
   \<and> fst (uart_misc_read True 2046 (user_buffer_writable 2046) []
        (fold enqueue [[2, 3], [4]]
          (enqueue (replicate 2047 1) (initial_state\<lparr>rx_buffer := frame (7, [3])\<rparr>)))) = 2046
   \<and> fst (snd (uart_misc_read True 2046 (user_buffer_writable 2046) []
        (fold enqueue [[2, 3], [4]]
          (enqueue (replicate 2047 1) (initial_state\<lparr>rx_buffer := frame (7, [3])\<rparr>)))))
       = replicate 2044 1 @ [2, 3]
   \<and> ring_contents (snd (snd (uart_misc_read True 2046 (user_buffer_writable 2046) []
        (fold enqueue [[2, 3], [4]]
          (enqueue (replicate 2047 1) (initial_state\<lparr>rx_buffer := frame (7, [3])\<rparr>))))))
       = [4]"
proof -
  have ok: "\<forall>i<2046. user_buffer_writable 2046 i"
    by (simp add: user_buffer_writable_def)
  from fifo_drop_oldest [OF full_ring(1) ok, of 9 7 1 "[[2, 3], [4]]" True "[]"]
  show ?thesis
    by (simp add: full_ring(2) BUF_SIZE_def HEADER_SIZE_def frame_length)
qed

section \<open>Malformed state updates\<close>

text \<open>
  Claim C5. A state update packet (type 4) with fewer than two payload bytes changes
  nothing but the kernel log and the history: the dispatch code leaves \<open>root_state\<close>,
  \<open>version\<close> and the ring as they were, and the loop goes on with the bytes after the
  frame. Received alone on an empty staging buffer, the frame is consumed whole.
\<close>

theorem short_state_update_discarded:
  assumes "length p < 2" and "rx_buffer s = frame (4, p) @ rest"
  shows "dispatch 4 (length p) s =
           s\<lparr>klog := klog s @ [State_Update_payload_too_small],
             dispatched := dispatched s @ [(4, p)]\<rparr>
         \<and> deframe s =
             deframe (s\<lparr>rx_buffer := rest,
                        klog := klog s @ [State_Update_payload_too_small],
                        dispatched := dispatched s @ [(4, p)]\<rparr>)
         \<and> (rx_buffer t = [] \<longrightarrow>
              uart_receive_buf (frame (4, p)) t =
                (int (length (frame (4, p))),
                 t\<lparr>klog := klog t @ [State_Update_payload_too_small],
                   dispatched := dispatched t @ [(4, p)]\<rparr>))"
proof -
  have d: "dispatch 4 (length p) s =
           s\<lparr>klog := klog s @ [State_Update_payload_too_small],
             dispatched := dispatched s @ [(4, p)]\<rparr>"
    using dispatch_state_update_short [OF assms(1), of s] assms(2)
    by (simp add: HEADER_SIZE_def frame_drop_header frame_length)
  have "uart_receive_buf (frame (4, p)) t =
          (int (length (frame (4, p))),
           t\<lparr>klog := klog t @ [State_Update_payload_too_small],
             dispatched := dispatched t @ [(4, p)]\<rparr>)" if empty: "rx_buffer t = []"
  proof -
    have "deframe (t\<lparr>rx_buffer := frame (4, p)\<rparr>) =
        t\<lparr>klog := klog t @ [State_Update_payload_too_small],
          dispatched := dispatched t @ [(4, p)]\<rparr>"
      using deframe_state_update_short [OF assms(1), of "t\<lparr>rx_buffer := frame (4, p)\<rparr>" "[]"]
        empty
      by (simp add: deframe_short HEADER_SIZE_def)
    moreover have "frame (4, p) \<noteq> []"
      by (simp add: frame_def)
    ultimately show ?thesis
      using empty assms(1)
      by (simp add: uart_receive_buf_def frame_length RX_BUFFER_SIZE_def)
  qed
  with d deframe_state_update_short [OF assms] show ?thesis
    by simp
qed

theorem short_state_update_discarded_witness:
  "dispatch 4 (length [9 :: byte])
       (initial_state\<lparr>rx_buffer := frame (4, [9]) @ frame (4, [1, 2])\<rparr>) =
     initial_state\<lparr>rx_buffer := frame (4, [9]) @ frame (4, [1, 2]),
       klog := [State_Update_payload_too_small], dispatched := [(4, [9])]\<rparr>
   \<and> deframe (initial_state\<lparr>rx_buffer := frame (4, [9]) @ frame (4, [1, 2])\<rparr>) =
       deframe (initial_state\<lparr>rx_buffer := frame (4, [1, 2]),
                  klog := [State_Update_payload_too_small], dispatched := [(4, [9])]\<rparr>)
   \<and> uart_receive_buf (frame (4, [9])) initial_state =
       (int (length (frame (4, [9]))),
        initial_state\<lparr>klog := [State_Update_payload_too_small], dispatched := [(4, [9])]\<rparr>)"
  using short_state_update_discarded [of "[9]"
      "initial_state\<lparr>rx_buffer := frame (4, [9]) @ frame (4, [1, 2])\<rparr>" "frame (4, [1, 2])"
      initial_state]
  by (simp add: initial_state_def)

section \<open>Staging buffer overflow\<close>

text \<open>
  Claim C8. A receive callback whose byte count, added to the bytes already staged, exceeds
  the staging capacity of 2048 accepts none of the new bytes, empties the staging buffer
  (so any partial frame is dropped) and reports the condition: it writes the message
  "Receive buffer overflow" and returns 0, which is not the count of the chunk. Nothing else
  of the state changes. The staged bytes never exceed the capacity (\<open>staging_bounded\<close>).
\<close>

theorem overflow_resets_staging:
  assumes "rx_buffer_pos s \<le> RX_BUFFER_SIZE"
    and "rx_buffer_pos s + length data > RX_BUFFER_SIZE"
  shows "uart_receive_buf data s =
           (0, s\<lparr>klog := klog s @ [Receive_buffer_overflow], rx_buffer := []\<rparr>)
         \<and> fst (uart_receive_buf data s) \<noteq> int (length data)"
  using assms by (auto simp: uart_receive_buf_def)

theorem overflow_resets_staging_witness:
  "uart_receive_buf (replicate 2049 0) initial_state =
     (0, initial_state\<lparr>klog := klog initial_state @ [Receive_buffer_overflow],
                       rx_buffer := []\<rparr>)
   \<and> fst (uart_receive_buf (replicate 2049 0) initial_state)
       \<noteq> int (length (replicate 2049 (0::byte)))"
  using overflow_resets_staging [of initial_state "replicate 2049 0"]
  by (simp add: initial_state_def RX_BUFFER_SIZE_def)

section \<open>Blocking read and write\<close>

text \<open>
  Claim C6. A blocking read that sleeps on the empty ring and is woken by a signal should
  fail with a result of its own. The source drops the value of
  \<^verbatim>\<open>wait_event_interruptible\<close>: on the initial state, with no arrival, the wait returns
  \<open>-ERESTARTSYS\<close>, the copy loop finds the ring still empty, and the read returns 0, the
  same value as a read that succeeded with no bytes. The non-blocking read of the same state
  returns \<open>-EAGAIN\<close>.
\<close>

theorem interrupted_read_returns_zero:
  "uart_misc_read False count put_user_ok [] initial_state = (0, [], initial_state)
   \<and> fst (wait_event_interruptible [] initial_state) = - ERESTARTSYS
   \<and> uart_misc_read True count put_user_ok [] initial_state = (- EAGAIN, [], initial_state)"
  by (simp add: uart_misc_read_def wait_event_interruptible_def initial_state_def
      read_loop.simps)

text \<open>
  Claim C7. For a non-empty caller buffer the write should call the transport's send
  primitive once with the full buffer and return the number of bytes the transport accepted,
  or its negative error code unchanged. The source does call the primitive once with the full
  buffer and forwards a negative value, but for every other value it returns the caller's
  count: when the transport reports that it took one byte, or none, of a buffer of two, the
  write returns 2.
\<close>

theorem short_write_returns_count:
  "uart_misc_write (transport_reporting 1) True True [0x41, 0x42] = (2, [[0x41, 0x42]])
   \<and> transport_reporting 1 [0x41, 0x42] = 1
   \<and> uart_misc_write (transport_reporting 0) True True [0x41, 0x42] = (2, [[0x41, 0x42]])
   \<and> uart_misc_write (transport_reporting 2) True True [0x41, 0x42] = (2, [[0x41, 0x42]])
   \<and> uart_misc_write (transport_reporting (- 5)) True True [0x41, 0x42] = (- 5, [[0x41, 0x42]])"
  by (simp add: uart_misc_write_def transport_reporting_def)

section \<open>State update packets\<close>

text \<open>
  Claim C9. Receiving a state update frame with at least two payload bytes sets
  \<open>root_state\<close> to the first and \<open>version\<close> to the second; receiving the same frame again
  leaves both as they are, and so does running the dispatch code twice. After the payload
  1, 2 the mirror holds 1 and 2, and the two attributes read "1" and "2".
\<close>

theorem state_update_idempotent:
  assumes "2 \<le> length p" and "length p \<le> 2040" and "rx_buffer s = []"
  shows "root_state (snd (uart_receive_buf (frame (4, p)) s)) = p ! 0
         \<and> version (snd (uart_receive_buf (frame (4, p)) s)) = p ! 1
         \<and> root_state (snd (uart_receive_buf (frame (4, p)) (snd (uart_receive_buf (frame (4, p)) s))))
             = root_state (snd (uart_receive_buf (frame (4, p)) s))
         \<and> version (snd (uart_receive_buf (frame (4, p)) (snd (uart_receive_buf (frame (4, p)) s))))
             = version (snd (uart_receive_buf (frame (4, p)) s))
         \<and> root_state (dispatch 4 n (dispatch 4 n t)) = root_state (dispatch 4 n t)
         \<and> version (dispatch 4 n (dispatch 4 n t)) = version (dispatch 4 n t)
         \<and> root_state (snd (uart_receive_buf (frame (4, [1, 2])) initial_state)) = 1
         \<and> version (snd (uart_receive_buf (frame (4, [1, 2])) initial_state)) = 2
         \<and> root_state_show (snd (uart_receive_buf (frame (4, [1, 2])) initial_state))
             = [CHR ''1'', CHR 0x0A]
         \<and> version_show (snd (uart_receive_buf (frame (4, [1, 2])) initial_state))
             = [CHR ''2'', CHR 0x0A]"
proof -
  note once = receive_state_update [OF assms]
  have "rx_buffer (snd (uart_receive_buf (frame (4, p)) s)) = []"
    using once assms(3) by simp
  note twice = receive_state_update [OF assms(1,2) this]
  have init: "rx_buffer initial_state = []" by (simp add: initial_state_def)
  have c: "uart_receive_buf (frame (4, [1, 2])) initial_state =
     (int (length (frame (4, [1, 2]))),
      initial_state\<lparr>root_state := 1, version := 2,
        klog := klog initial_state @ [State_Update_Packet_Received, Root_State 1, Version 2],
        dispatched := dispatched initial_state @ [(4, [1, 2])]\<rparr>)"
    using receive_state_update [of "[1, 2]" initial_state] init by simp
  have d: "root_state (dispatch 4 n (dispatch 4 n t)) = root_state (dispatch 4 n t)
         \<and> version (dispatch 4 n (dispatch 4 n t)) = version (dispatch 4 n t)"
    by (simp add: dispatch_def Let_def)
  show ?thesis
    using once twice d
    by (simp add: c root_state_show_def version_show_def fmt_u.simps digit_char_def)
qed

theorem state_update_idempotent_witness:
  "root_state (snd (uart_receive_buf (frame (4, [7, 8, 9])) initial_state)) = 7
   \<and> version (snd (uart_receive_buf (frame (4, [7, 8, 9])) initial_state)) = 8
   \<and> root_state (snd (uart_receive_buf (frame (4, [7, 8, 9]))
        (snd (uart_receive_buf (frame (4, [7, 8, 9])) initial_state)))) = 7
   \<and> version (snd (uart_receive_buf (frame (4, [7, 8, 9]))
        (snd (uart_receive_buf (frame (4, [7, 8, 9])) initial_state)))) = 8"
  using state_update_idempotent [of "[7, 8, 9]" initial_state]
  by (simp add: initial_state_def)

section \<open>The ring invariant\<close>

text \<open>
  Claim C10. The cursors of the ring stay below 2048: the invariant holds initially and is
  kept by every enqueue step, every dequeue step, every receive callback and every read.
  The cursors are equal exactly when there is no unread byte, an enqueue step never leaves
  them equal, and the number of unread bytes is at most 2047: an enqueue step adds one
  byte up to that bound, a dequeue step removes one.
\<close>

theorem ring_invariant:
  assumes "ring_inv s"
  shows "ring_inv initial_state
         \<and> ring_inv (enqueue_byte b s)
         \<and> (buffer_head s \<noteq> buffer_tail s \<longrightarrow> ring_inv (snd (dequeue_byte s)))
         \<and> ring_inv (snd (uart_receive_buf data s))
         \<and> ring_inv (snd (snd (uart_misc_read nonblock count put_user_ok arrivals s)))
         \<and> buffer_head s < 2048 \<and> buffer_tail s < 2048
         \<and> (buffer_head s = buffer_tail s \<longleftrightarrow> ring_contents s = [])
         \<and> buffer_head (enqueue_byte b s) \<noteq> buffer_tail (enqueue_byte b s)
         \<and> length (ring_contents s) \<le> 2047
         \<and> length (ring_contents (enqueue_byte b s)) = min 2047 (length (ring_contents s) + 1)
         \<and> (buffer_head s \<noteq> buffer_tail s \<longrightarrow>
              length (ring_contents (snd (dequeue_byte s))) = length (ring_contents s) - 1)"
proof -
  have bound: "length (ring_contents s) \<le> 2047"
    using ring_contents_bound [of s] by (simp add: BUF_SIZE_def)
  have enq: "length (ring_contents (enqueue_byte b s)) = min 2047 (length (ring_contents s) + 1)"
    using enqueue_byte_contents [OF assms, of b] bound by (auto simp: BUF_SIZE_def)
  have deq: "length (ring_contents (snd (dequeue_byte s))) = length (ring_contents s) - 1"
    if "buffer_head s \<noteq> buffer_tail s"
    using dequeue_byte_contents [OF assms that] by simp
  have cursors: "buffer_head s < 2048 \<and> buffer_tail s < 2048"
    using assms by (simp add: ring_inv_def BUF_SIZE_def)
  show ?thesis
    using initial_ring(1) enqueue_byte_inv [OF assms, of b] dequeue_byte_inv [OF assms]
      uart_receive_buf_inv [OF assms, of data]
      uart_misc_read_inv [OF assms, of nonblock count put_user_ok arrivals]
      ring_empty_iff [OF assms] enqueue_byte_nonempty [of b s] bound enq deq cursors
    by simp
qed

theorem ring_invariant_witness:
  "ring_inv (enqueue_byte 9 (enqueue_byte 7 initial_state))
   \<and> ring_inv (snd (dequeue_byte (enqueue_byte 7 initial_state)))
   \<and> ring_inv (snd (uart_receive_buf [1] (enqueue_byte 7 initial_state)))
   \<and> ring_inv (snd (snd (uart_misc_read True 4 (user_buffer_writable 4) []
                            (enqueue_byte 7 initial_state))))
   \<and> ring_contents (enqueue_byte 7 initial_state) \<noteq> []
   \<and> buffer_head (enqueue_byte 9 (enqueue_byte 7 initial_state))
       \<noteq> buffer_tail (enqueue_byte 9 (enqueue_byte 7 initial_state))
   \<and> length (ring_contents (enqueue_byte 9 (enqueue_byte 7 initial_state))) = 2
   \<and> length (ring_contents (snd (dequeue_byte (enqueue_byte 7 initial_state)))) = 0"
proof -
  have inv: "ring_inv (enqueue_byte 7 initial_state)"
    by (rule enqueue_byte_inv [OF initial_ring(1)])
  have one: "ring_contents (enqueue_byte 7 initial_state) = [7]"
    using enqueue_byte_contents [OF initial_ring(1), of 7]
    by (simp add: initial_ring(2) BUF_SIZE_def)
  have differ: "buffer_head (enqueue_byte 7 initial_state) \<noteq> buffer_tail (enqueue_byte 7 initial_state)"
    by (rule enqueue_byte_nonempty)
  from ring_invariant [OF inv, of 9 "[1]" True 4 "user_buffer_writable 4" "[]"] differ
  show ?thesis
    by (simp add: one)
qed

end
